theory Spec2Isabelle
  imports Main "HOL-Library.Word"
begin

section \<open>The multiplication-table analyzer of multiplication\_counter.py\<close>

text \<open>
  The script holds one computation, \<open>count_unique_multiplication_results\<close>, and one
  drawing function, \<open>visualize_multiplication_table\<close>. Both are embedded below as they
  are written: Python integers are \<open>int\<close>, the entries of the NumPy arrays declared with
  \<open>dtype=np.int32\<close> are \<open>32 word\<close> (read with \<open>sint\<close>), the two matrices are lists
  of rows, the set of seen results is a set, and every exception the code can raise is a
  value \<open>Inl e\<close>.
\<close>

subsection \<open>NumPy arrays\<close>

datatype error = TypeError | ValueError | OverflowError | IndexError

type_synonym int32 = "32 word"

text \<open>\<open>np.zeros((n, m), dtype)\<close>: NumPy refuses a negative dimension with a ValueError.\<close>

definition np_zeros :: "int \<Rightarrow> int \<Rightarrow> 'a \<Rightarrow> error + 'a list list" where
  "np_zeros n m z =
     (if n < 0 \<or> m < 0 then Inl ValueError
      else Inr (replicate (nat n) (replicate (nat m) z)))"

text \<open>
  An index into an axis of length \<open>len\<close>: a negative index counts from the end, anything
  outside \<open>[-len, len)\<close> is an IndexError.
\<close>

type_synonym indexing = "nat \<Rightarrow> int \<Rightarrow> error + nat"

definition np_index :: indexing where
  "np_index len k =
     (if 0 \<le> k \<and> k < int len then Inr (nat k)
      else if - int len \<le> k \<and> k < 0 then Inr (nat (k + int len))
      else Inl IndexError)"

text \<open>
  \<open>a[r, c] = v\<close>. The store takes the index rule as a parameter: the program runs with
  NumPy's rule \<open>np_index\<close>, and the results below run it a second time with a rule under
  which a negative index is an error too.
\<close>

definition setitem :: "indexing \<Rightarrow> 'a list list \<Rightarrow> int \<Rightarrow> int \<Rightarrow> 'a \<Rightarrow> error + 'a list list" where
  "setitem ix a r c v =
     (case ix (length a) r of
        Inl e \<Rightarrow> Inl e
      | Inr r' \<Rightarrow>
          (case ix (length (a ! r')) c of
             Inl e \<Rightarrow> Inl e
           | Inr c' \<Rightarrow> Inr (a[r' := (a ! r')[c' := v]])))"

text \<open>\<open>a[k]\<close> on one axis.\<close>

definition getitem :: "'a list \<Rightarrow> int \<Rightarrow> error + 'a" where
  "getitem a k =
     (case np_index (length a) k of
        Inl e \<Rightarrow> Inl e
      | Inr k' \<Rightarrow> Inr (a ! k'))"

text \<open>
  \<open>np.arange(start, stop, dtype=np.int32)\<close>: the values \<open>start, \<dots>, stop - 1\<close>, each
  stored in 32 bits, so a value beyond the int32 range wraps around.
\<close>

definition np_arange :: "int \<Rightarrow> int \<Rightarrow> int32 list" where
  "np_arange start stop = map word_of_int [start..stop - 1]"

text \<open>
  \<open>i * j_range\<close> for a Python integer \<open>i\<close> and an int32 array: the result is an int32
  array, each product computed in 32 bits and wrapping around silently. The integer
  itself has to fit an int32, or NumPy (from version 2 on) raises an OverflowError.
\<close>

definition times_int32 :: "int \<Rightarrow> int32 list \<Rightarrow> error + int32 list" where
  "times_int32 i xs =
     (if - (2 ^ 31) \<le> i \<and> i < 2 ^ 31 then Inr (map (\<lambda>j. word_of_int i * j) xs)
      else Inl OverflowError)"

subsection \<open>count\_unique\_multiplication\_results\<close>

text \<open>
  The three local variables the loops update.
\<close>

record locals =
  result_matrix :: "int32 list list"
  is_new_matrix :: "bool list list"
  seen_results :: "int32 set"

text \<open>
  The body of the inner loop, for one \<open>(idx, j)\<close> of \<open>enumerate(j_range)\<close>. The value
  \<open>results[idx]\<close> is read from the array computed before the loop; \<open>idx\<close> is always
  below its length. \<open>j\<close> is an element of an int32 array: \<open>j - 1\<close> is computed in 32
  bits, and \<open>sint\<close> gives the number that is compared with \<open>n\<close> and used as an index.
\<close>

definition loop_body ::
    "indexing \<Rightarrow> int \<Rightarrow> int \<Rightarrow> int32 list \<Rightarrow> nat \<times> int32 \<Rightarrow> locals \<Rightarrow> error + locals" where
  "loop_body ix n i results p st =
     (case p of (idx, j) \<Rightarrow>
        let result = results ! idx in
        (case setitem ix (result_matrix st) (i - 1) (sint (j - 1)) result of
           Inl e \<Rightarrow> Inl e
         | Inr rm1 \<Rightarrow>
             (case (if sint j \<le> n then setitem ix rm1 (sint (j - 1)) (i - 1) result
                    else Inr rm1) of
                Inl e \<Rightarrow> Inl e
              | Inr rm2 \<Rightarrow>
                  if result \<notin> seen_results st then
                    (case setitem ix (is_new_matrix st) (i - 1) (sint (j - 1)) True of
                       Inl e \<Rightarrow> Inl e
                     | Inr nm \<Rightarrow>
                         Inr (st\<lparr>result_matrix := rm2, is_new_matrix := nm,
                                 seen_results := insert result (seen_results st)\<rparr>))
                  else Inr (st\<lparr>result_matrix := rm2\<rparr>))))"

fun inner_loop ::
    "indexing \<Rightarrow> int \<Rightarrow> int \<Rightarrow> int32 list \<Rightarrow> (nat \<times> int32) list \<Rightarrow> locals \<Rightarrow> error + locals" where
  "inner_loop ix n i results [] st = Inr st"
| "inner_loop ix n i results (p # ps) st =
     (case loop_body ix n i results p st of
        Inl e \<Rightarrow> Inl e
      | Inr st' \<Rightarrow> inner_loop ix n i results ps st')"

text \<open>
  The outer loop over \<open>range(1, n + 1)\<close>, with
  \<open>j_range = np.arange(i, m + 1, dtype=np.int32)\<close> and \<open>results = i * j_range\<close>.
\<close>

fun outer_loop :: "indexing \<Rightarrow> int \<Rightarrow> int \<Rightarrow> int list \<Rightarrow> locals \<Rightarrow> error + locals" where
  "outer_loop ix n m [] st = Inr st"
| "outer_loop ix n m (i # is) st =
     (let j_range = np_arange i (m + 1) in
      case times_int32 i j_range of
        Inl e \<Rightarrow> Inl e
      | Inr results \<Rightarrow>
          (case inner_loop ix n i results (enumerate 0 j_range) st of
             Inl e \<Rightarrow> Inl e
           | Inr st' \<Rightarrow> outer_loop ix n m is st'))"

type_synonym analysis = "int32 set \<times> nat \<times> int32 list list \<times> bool list list"

definition analyzer :: "indexing \<Rightarrow> int \<Rightarrow> int \<Rightarrow> error + analysis" where
  "analyzer ix n m =
     (case np_zeros n m 0 of
        Inl e \<Rightarrow> Inl e
      | Inr rm \<Rightarrow>
          (case np_zeros n m False of
             Inl e \<Rightarrow> Inl e
           | Inr nm \<Rightarrow>
               (case outer_loop ix n m [1..n]
                       \<lparr>result_matrix = rm, is_new_matrix = nm, seen_results = {}\<rparr> of
                  Inl e \<Rightarrow> Inl e
                | Inr st \<Rightarrow>
                    Inr (seen_results st, card (seen_results st),
                         result_matrix st, is_new_matrix st))))"

text \<open>The function as Python runs it, on NumPy's arrays.\<close>

definition count_unique_multiplication_results :: "int \<Rightarrow> int \<Rightarrow> error + analysis" where
  "count_unique_multiplication_results n m = analyzer np_index n m"

text \<open>
  Python passes any object as \<open>n\<close> or \<open>m\<close>. The first statement of the function,
  \<open>np.zeros((n, m), dtype=np.int32)\<close>, raises a TypeError when an element of the shape
  is not an integer (a float, a string, \<open>None\<close>); with two integers the body runs as
  above.
\<close>

datatype argument = Integer int | NonInteger

definition call_count_unique_multiplication_results ::
    "argument \<Rightarrow> argument \<Rightarrow> error + analysis" where
  "call_count_unique_multiplication_results n m =
     (case (n, m) of
        (Integer a, Integer b) \<Rightarrow> count_unique_multiplication_results a b
      | _ \<Rightarrow> Inl TypeError)"

subsection \<open>The drawing loop of visualize\_multiplication\_table\<close>

text \<open>
  Of the renderer, the part that classifies cells is embedded: the two nested loops over
  \<open>range(n)\<close> and \<open>range(m)\<close> that add one rectangle per cell at \<open>(x_pos, y_pos)\<close>
  with face colour \<open>'red'\<close> or \<open>'white'\<close>, and the returned pair \<open>(count, unique_results)\<close>,
  which the model returns after the list of rectangles added to the axes. Figure sizes
  (floating point), title, legend and file output are not part of the embedding.
\<close>

datatype colour = Red | White

record rectangle =
  xy :: "int \<times> int"
  facecolor :: colour

fun draw_row :: "int \<Rightarrow> bool list \<Rightarrow> int list \<Rightarrow> error + rectangle list" where
  "draw_row y_pos is_new_row [] = Inr []"
| "draw_row y_pos is_new_row (j # js) =
     (case getitem is_new_row j of
        Inl e \<Rightarrow> Inl e
      | Inr b \<Rightarrow>
          (case draw_row y_pos is_new_row js of
             Inl e \<Rightarrow> Inl e
           | Inr rs \<Rightarrow>
               Inr (\<lparr>xy = (j, y_pos), facecolor = (if b then Red else White)\<rparr> # rs)))"

fun draw_rows :: "int \<Rightarrow> int \<Rightarrow> bool list list \<Rightarrow> int list \<Rightarrow> error + rectangle list" where
  "draw_rows n m is_new [] = Inr []"
| "draw_rows n m is_new (i # is) =
     (case getitem is_new i of
        Inl e \<Rightarrow> Inl e
      | Inr is_new_row \<Rightarrow>
          (case draw_row (n - 1 - i) is_new_row [0..m - 1] of
             Inl e \<Rightarrow> Inl e
           | Inr rs \<Rightarrow>
               (case draw_rows n m is_new is of
                  Inl e \<Rightarrow> Inl e
                | Inr rss \<Rightarrow> Inr (rs @ rss))))"

definition visualize_multiplication_table ::
    "int \<Rightarrow> int \<Rightarrow> error + (rectangle list \<times> nat \<times> int32 set)" where
  "visualize_multiplication_table n m =
     (case count_unique_multiplication_results n m of
        Inl e \<Rightarrow> Inl e
      | Inr (unique_results, count, res_matrix, new_matrix) \<Rightarrow>
          (case draw_rows n m new_matrix [0..n - 1] of
             Inl e \<Rightarrow> Inl e
           | Inr patches \<Rightarrow> Inr (patches, count, unique_results)))"

section \<open>Definitions for the verification\<close>

subsection \<open>Strict indexing\<close>

text \<open>
  Not NumPy's rule: an index outside \<open>[0, len)\<close> is an error, a negative one included.
  A run that returns under this rule has made every store inside the bounds of its axis.
\<close>

definition strict_index :: indexing where
  "strict_index len k = (if 0 \<le> k \<and> k < int len then Inr (nat k) else Inl IndexError)"

definition plain :: "indexing \<Rightarrow> bool" where
  "plain ix \<longleftrightarrow> (\<forall>len k. 0 \<le> k \<and> k < int len \<longrightarrow> ix len k = Inr (nat k))"

subsection \<open>The loops as a fold over the visited pairs\<close>

text \<open>
  \<open>traversal n m\<close> lists the pairs \<open>(i, j)\<close> in the order in which the two loops reach
  them: \<open>i\<close> from 1 to \<open>n\<close>, and for each \<open>i\<close>, \<open>j\<close> from \<open>i\<close> to \<open>m\<close>. \<open>visit\<close>
  is the loop body without its bounds checks and with \<open>j\<close> as a plain integer, \<open>upd\<close>
  the unchecked array store. Lemma \<open>analyzer_eq\<close> below shows that on non-negative
  \<open>n\<close>, \<open>m\<close> below \<open>2 ^ 31\<close> the embedded function raises nothing and returns exactly
  the fold of \<open>visit\<close> over \<open>traversal n m\<close>.
\<close>

definition upd :: "'a list list \<Rightarrow> nat \<Rightarrow> nat \<Rightarrow> 'a \<Rightarrow> 'a list list" where
  "upd a r c v = a[r := (a ! r)[c := v]]"

definition shaped :: "nat \<Rightarrow> nat \<Rightarrow> 'a list list \<Rightarrow> bool" where
  "shaped R C a \<longleftrightarrow> length a = R \<and> (\<forall>r < R. length (a ! r) = C)"

definition traversal :: "int \<Rightarrow> int \<Rightarrow> (int \<times> int) list" where
  "traversal n m = concat (map (\<lambda>i. map (Pair i) [i..m]) [1..n])"

definition inb :: "int \<Rightarrow> int \<Rightarrow> int \<times> int \<Rightarrow> bool" where
  "inb n m p \<longleftrightarrow> 1 \<le> fst p \<and> fst p \<le> n \<and> fst p \<le> snd p \<and> snd p \<le> m"

definition visit :: "int \<Rightarrow> int \<times> int \<Rightarrow> locals \<Rightarrow> locals" where
  "visit n p st =
     (case p of (i, j) \<Rightarrow>
        let result = word_of_int i * word_of_int j;
            rm1 = upd (result_matrix st) (nat (i - 1)) (nat (j - 1)) result;
            rm2 = (if j \<le> n then upd rm1 (nat (j - 1)) (nat (i - 1)) result else rm1)
        in if result \<notin> seen_results st
           then st\<lparr>result_matrix := rm2,
                   is_new_matrix := upd (is_new_matrix st) (nat (i - 1)) (nat (j - 1)) True,
                   seen_results := insert result (seen_results st)\<rparr>
           else st\<lparr>result_matrix := rm2\<rparr>)"

definition good :: "int \<Rightarrow> int \<Rightarrow> locals \<Rightarrow> bool" where
  "good n m st \<longleftrightarrow> shaped (nat n) (nat m) (result_matrix st) \<and> shaped (nat n) (nat m) (is_new_matrix st)"

definition initial :: "int \<Rightarrow> int \<Rightarrow> locals" where
  "initial n m =
     \<lparr>result_matrix = replicate (nat n) (replicate (nat m) 0),
      is_new_matrix = replicate (nat n) (replicate (nat m) False),
      seen_results = {}\<rparr>"

definition final :: "int \<Rightarrow> int \<Rightarrow> locals" where
  "final n m = fold (visit n) (traversal n m) (initial n m)"

subsection \<open>What the traversal writes\<close>

text \<open>
  The indices of the direct stores \<open>result_matrix[i - 1, j - 1]\<close> and of the mirror stores
  \<open>result_matrix[j - 1, i - 1]\<close> (made only when \<open>j \<le> n\<close>), the value a written cell
  \<open>(r, c)\<close> (0-indexed) receives, and the cells of the boolean matrix that are true.
\<close>

definition direct_writes :: "int \<Rightarrow> int \<Rightarrow> (int \<times> int) list" where
  "direct_writes n m = map (\<lambda>(i, j). (i - 1, j - 1)) (traversal n m)"

definition mirror_writes :: "int \<Rightarrow> int \<Rightarrow> (int \<times> int) list" where
  "mirror_writes n m = map (\<lambda>(i, j). (j - 1, i - 1)) (filter (\<lambda>(i, j). j \<le> n) (traversal n m))"

definition cell_value :: "nat \<times> nat \<Rightarrow> int32" where
  "cell_value p = word_of_int (int (fst p) + 1) * word_of_int (int (snd p) + 1)"

definition true_cells :: "int \<Rightarrow> int \<Rightarrow> bool list list \<Rightarrow> (nat \<times> nat) set" where
  "true_cells n m a = {(r, c). r < nat n \<and> c < nat m \<and> a ! r ! c}"

definition tally :: "int \<Rightarrow> int \<Rightarrow> locals \<Rightarrow> bool" where
  "tally n m st \<longleftrightarrow>
     inj_on cell_value (true_cells n m (is_new_matrix st)) \<and>
     cell_value ` true_cells n m (is_new_matrix st) = seen_results st \<and>
     (\<forall>p \<in> true_cells n m (is_new_matrix st). fst p \<le> snd p)"

definition count_true :: "bool list list \<Rightarrow> nat" where
  "count_true a = length (filter (\<lambda>b. b) (concat a))"

subsection \<open>Reading the returned tuple, and the expected drawing\<close>

abbreviation count_of :: "error + analysis \<Rightarrow> nat" where
  "count_of r \<equiv> fst (snd (projr r))"

abbreviation result_matrix_of :: "error + analysis \<Rightarrow> int32 list list" where
  "result_matrix_of r \<equiv> fst (snd (snd (projr r)))"

text \<open>
  The rectangles the drawing loop is expected to add: one per cell, row by row, red where
  the boolean matrix is true and white elsewhere.
\<close>

definition grid_patches :: "int \<Rightarrow> int \<Rightarrow> bool list list \<Rightarrow> rectangle list" where
  "grid_patches n m is_new =
     concat (map (\<lambda>i. map (\<lambda>j. \<lparr>xy = (j, n - 1 - i),
                                  facecolor = (if is_new ! nat i ! nat j then Red else White)\<rparr>)
                          [0..m - 1])
                 [0..n - 1])"

section \<open>The loops never leave the arrays\<close>

lemma plain_np_index: "plain np_index"
  by (simp add: plain_def np_index_def)

lemma plain_strict_index: "plain strict_index"
  by (simp add: plain_def strict_index_def)

lemma shaped_replicate: "shaped R C (replicate R (replicate C z))"
  by (simp add: shaped_def)

lemma shaped_upd: "shaped R C a \<Longrightarrow> shaped R C (upd a r c v)"
proof -
  assume a: "shaped R C a"
  have "length (upd a r c v ! k) = C" if "k < R" for k
    using a that by (cases "k = r") (simp_all add: shaped_def upd_def)
  with a show ?thesis by (simp add: shaped_def upd_def)
qed

lemma upd_nth:
  "shaped R C a \<Longrightarrow> r' < R \<Longrightarrow> c' < C \<Longrightarrow> r < R \<Longrightarrow> c < C \<Longrightarrow>
   upd a r' c' v ! r ! c = (if r = r' \<and> c = c' then v else a ! r ! c)"
  by (cases "r = r'"; cases "c = c'") (simp_all add: shaped_def upd_def)

lemma upd_upd_nth:
  assumes "shaped R C a" "r1 < R" "c1 < C" "r2 < R" "c2 < C" "r < R" "c < C"
  shows "upd (upd a r1 c1 v) r2 c2 v ! r ! c =
         (if (r = r1 \<and> c = c1) \<or> (r = r2 \<and> c = c2) then v else a ! r ! c)"
proof -
  have "upd (upd a r1 c1 v) r2 c2 v ! r ! c =
        (if r = r2 \<and> c = c2 then v else upd a r1 c1 v ! r ! c)"
    using assms by (intro upd_nth [OF shaped_upd])
  also have "upd a r1 c1 v ! r ! c = (if r = r1 \<and> c = c1 then v else a ! r ! c)"
    using assms by (intro upd_nth)
  finally show ?thesis by auto
qed

lemma setitem_ok:
  "plain ix \<Longrightarrow> shaped R C a \<Longrightarrow> 0 \<le> r \<Longrightarrow> r < int R \<Longrightarrow> 0 \<le> c \<Longrightarrow> c < int C \<Longrightarrow>
   setitem ix a r c v = Inr (upd a (nat r) (nat c) v)"
  by (auto simp: shaped_def upd_def setitem_def plain_def)

lemma sint_small:
  assumes "0 \<le> k" "k < 2 ^ 31"
  shows "sint (word_of_int k :: int32) = k"
proof -
  have "signed_take_bit 31 k = k"
    using assms by (intro signed_take_bit_int_eq_self) simp_all
  then show ?thesis by (simp add: sint_sbintrunc')
qed

lemma sint_pred:
  assumes "1 \<le> j" "j < 2 ^ 31"
  shows "sint (word_of_int j - 1 :: int32) = j - 1"
proof -
  have "(word_of_int j - 1 :: int32) = word_of_int (j - 1)" by simp
  moreover have "sint (word_of_int (j - 1) :: int32) = j - 1"
    using assms by (intro sint_small) simp_all
  ultimately show ?thesis by (simp only:)
qed

lemma loop_body_ok:
  assumes "plain ix" "good n m st" "inb n m (i, j)" "j < 2 ^ 31" "idx < length results"
    "results ! idx = word_of_int i * word_of_int j"
  shows "loop_body ix n i results (idx, word_of_int j) st = Inr (visit n (i, j) st)"
proof -
  from assms(2) have rm: "shaped (nat n) (nat m) (result_matrix st)"
    and nm: "shaped (nat n) (nat m) (is_new_matrix st)" by (simp_all add: good_def)
  from assms(3) have b: "1 \<le> i" "i \<le> n" "i \<le> j" "j \<le> m" by (simp_all add: inb_def)
  have sj: "sint (word_of_int j :: int32) = j"
    using b assms(4) by (intro sint_small) simp_all
  have sj1: "sint (word_of_int j - 1 :: int32) = j - 1"
    using b assms(4) by (intro sint_pred) simp_all
  let ?w = "word_of_int i * word_of_int j :: int32"
  have s1: "setitem ix (result_matrix st) (i - 1) (j - 1) ?w
            = Inr (upd (result_matrix st) (nat (i - 1)) (nat (j - 1)) ?w)"
    using b by (intro setitem_ok [OF assms(1) rm]) auto
  have s2: "j \<le> n \<Longrightarrow> setitem ix (upd (result_matrix st) (nat (i - 1)) (nat (j - 1)) ?w) (j - 1) (i - 1) ?w
            = Inr (upd (upd (result_matrix st) (nat (i - 1)) (nat (j - 1)) ?w) (nat (j - 1)) (nat (i - 1)) ?w)"
    using b by (intro setitem_ok [OF assms(1) shaped_upd [OF rm]]) auto
  have s3: "setitem ix (is_new_matrix st) (i - 1) (j - 1) True
            = Inr (upd (is_new_matrix st) (nat (i - 1)) (nat (j - 1)) True)"
    using b by (intro setitem_ok [OF assms(1) nm]) auto
  show ?thesis
    unfolding loop_body_def prod.case Let_def sj sj1 assms(6)
    using s2 by (simp add: visit_def s1 s3 Let_def)
qed

lemma visit_good: "good n m st \<Longrightarrow> good n m (visit n p st)"
  by (cases p) (simp add: good_def visit_def Let_def shaped_upd)

lemma fold_visit_good: "good n m st \<Longrightarrow> good n m (fold (visit n) ps st)"
  by (induction ps arbitrary: st) (simp_all add: visit_good)

lemma inner_loop_ok:
  assumes "plain ix" "good n m st" "\<forall>j \<in> set js. inb n m (i, j) \<and> j < 2 ^ 31"
    "results = map (\<lambda>j. word_of_int i * j) (map word_of_int (pre @ js @ post))"
  shows "inner_loop ix n i results (enumerate (length pre) (map word_of_int js)) st
         = Inr (fold (visit n) (map (Pair i) js) st)"
  using assms(2-4)
proof (induction js arbitrary: pre st)
  case Nil
  then show ?case by simp
next
  case (Cons j js)
  have body: "loop_body ix n i results (length pre, word_of_int j) st = Inr (visit n (i, j) st)"
    using Cons.prems assms(1) by (intro loop_body_ok [where m = m]) (auto simp: nth_append)
  have "inner_loop ix n i results (enumerate (length (pre @ [j])) (map word_of_int js))
          (visit n (i, j) st)
        = Inr (fold (visit n) (map (Pair i) js) (visit n (i, j) st))"
    using Cons.prems by (intro Cons.IH) (simp_all add: visit_good)
  with body show ?case by simp
qed

lemma inner_loop_append:
  "inner_loop ix n i results (ps @ qs) st =
     (case inner_loop ix n i results ps st of
        Inl e \<Rightarrow> Inl e
      | Inr st' \<Rightarrow> inner_loop ix n i results qs st')"
  by (induction ps arbitrary: st) (auto split: sum.splits)

lemma outer_loop_append:
  "outer_loop ix n m (xs @ ys) st =
     (case outer_loop ix n m xs st of
        Inl e \<Rightarrow> Inl e
      | Inr st' \<Rightarrow> outer_loop ix n m ys st')"
  by (induction xs arbitrary: st) (auto simp: Let_def split: sum.splits)

lemma outer_loop_ok:
  assumes "plain ix" "good n m st" "\<forall>i \<in> set is. 1 \<le> i \<and> i \<le> n \<and> i < 2 ^ 31" "m < 2 ^ 31"
  shows "outer_loop ix n m is st
         = Inr (fold (visit n) (concat (map (\<lambda>i. map (Pair i) [i..m]) is)) st)"
  using assms(2,3)
proof (induction "is" arbitrary: st)
  case Nil
  then show ?case by simp
next
  case (Cons i "is")
  let ?results = "map (\<lambda>j. word_of_int i * j) (map word_of_int ([] @ [i..m] @ []))"
  have t: "times_int32 i (map word_of_int [i..m]) = Inr ?results"
    using Cons.prems by (simp add: times_int32_def)
  have "inner_loop ix n i ?results
          (enumerate (length ([] :: int list)) (map word_of_int [i..m])) st
        = Inr (fold (visit n) (map (Pair i) [i..m]) st)"
    using Cons.prems assms(1,4) by (intro inner_loop_ok [where m = m]) (auto simp: inb_def)
  moreover have "outer_loop ix n m is (fold (visit n) (map (Pair i) [i..m]) st)
        = Inr (fold (visit n) (concat (map (\<lambda>i. map (Pair i) [i..m]) is))
                 (fold (visit n) (map (Pair i) [i..m]) st))"
    using Cons.prems by (intro Cons.IH) (auto simp: fold_visit_good)
  ultimately show ?case by (simp add: Let_def np_arange_def t)
qed

lemma good_initial: "good n m (initial n m)"
  by (simp add: good_def initial_def shaped_replicate)

lemma good_final: "good n m (final n m)"
  by (simp add: final_def fold_visit_good good_initial)

lemma analyzer_on_eq:
  assumes "plain ix" "0 \<le> n" "n < 2 ^ 31" "0 \<le> m" "m < 2 ^ 31"
  shows "analyzer ix n m =
         Inr (seen_results (final n m), card (seen_results (final n m)),
              result_matrix (final n m), is_new_matrix (final n m))"
proof -
  have "outer_loop ix n m [1..n] (initial n m) = Inr (final n m)"
    unfolding final_def traversal_def
    using assms by (intro outer_loop_ok good_initial) auto
  then show ?thesis
    using assms by (simp add: analyzer_def np_zeros_def initial_def)
qed

lemma analyzer_eq:
  assumes "0 \<le> n" "n < 2 ^ 31" "0 \<le> m" "m < 2 ^ 31"
  shows "count_unique_multiplication_results n m =
         Inr (seen_results (final n m), card (seen_results (final n m)),
              result_matrix (final n m), is_new_matrix (final n m))"
  unfolding count_unique_multiplication_results_def
  by (rule analyzer_on_eq [OF plain_np_index assms])

lemma set_traversal: "set (traversal n m) = {p. inb n m p}"
  by (auto simp: traversal_def inb_def)

section \<open>Beyond the int32 range\<close>

text \<open>
  With \<open>m \<ge> 2 ^ 31\<close> the entry \<open>2 ^ 31\<close> of \<open>j_range\<close> wraps around to \<open>- 2 ^ 31\<close>: it
  passes the test \<open>j \<le> n\<close>, and the mirror store at row \<open>2 ^ 31 - 1\<close> raises an
  IndexError. With \<open>n \<ge> 2 ^ 31\<close> the product \<open>i * j_range\<close> raises an OverflowError
  when \<open>i\<close> reaches \<open>2 ^ 31\<close>, unless something was raised before.
\<close>

lemma wrapped_step:
  assumes "good n m st" "0 < n" "n < 2 ^ 31" "2 ^ 31 \<le> m"
  shows "loop_body np_index n 1 results (idx, word_of_int (2 ^ 31)) st = Inl IndexError"
proof -
  from assms(1) have rm: "shaped (nat n) (nat m) (result_matrix st)" by (simp add: good_def)
  let ?j = "word_of_int (2 ^ 31) :: int32"
  have sj: "sint ?j = - (2 ^ 31)" by simp
  have sj1: "sint (?j - 1) = 2 ^ 31 - 1" by simp
  let ?rm1 = "upd (result_matrix st) (nat 0) (nat (2 ^ 31 - 1)) (results ! idx)"
  have s1: "setitem np_index (result_matrix st) 0 (2 ^ 31 - 1) (results ! idx) = Inr ?rm1"
    using assms(2-4) by (intro setitem_ok [OF plain_np_index rm]) auto
  have "length ?rm1 = nat n" using rm by (simp add: upd_def shaped_def)
  then have "np_index (length ?rm1) (2 ^ 31 - 1) = Inl IndexError"
    using assms(2,3) by (simp add: np_index_def)
  then have s2: "setitem np_index ?rm1 (2 ^ 31 - 1) 0 (results ! idx) = Inl IndexError"
    by (simp add: setitem_def)
  have le: "- (2 ^ 31) \<le> n" using assms(2) by simp
  show ?thesis
    unfolding loop_body_def prod.case Let_def sj sj1
    using le by (simp only: s1 s2 sum.case if_True diff_self)
qed

lemma wide_overflow:
  assumes "0 < n" "n < 2 ^ 31" "2 ^ 31 \<le> m"
  shows "count_unique_multiplication_results n m = Inl IndexError"
proof -
  define A :: "int list" where "A = [1..2 ^ 31 - 1]"
  define B where "B = [2 ^ 31 + 1..m]"
  define x :: int where "x = 2 ^ 31"
  define results :: "int32 list"
    where "results = map (\<lambda>j. word_of_int 1 * j) (map word_of_int ([] @ A @ (x # B)))"
  define st1 where "st1 = fold (visit n) (map (Pair 1) A) (initial n m)"
  have split: "[1..m] = A @ x # B"
    unfolding A_def B_def x_def using assms(3) by (intro upto_split3) simp_all
  have pre: "inner_loop np_index n 1 results
               (enumerate (length ([] :: int list)) (map word_of_int A)) (initial n m) = Inr st1"
    unfolding st1_def
  proof (rule inner_loop_ok [where m = m, OF plain_np_index good_initial _ results_def])
    show "\<forall>j \<in> set A. inb n m (1, j) \<and> j < 2 ^ 31"
      using assms by (auto simp: inb_def A_def)
  qed
  have "good n m st1"
    unfolding st1_def by (intro fold_visit_good good_initial)
  then have bad: "loop_body np_index n 1 results (length A, word_of_int x) st1 = Inl IndexError"
    unfolding x_def using assms by (rule wrapped_step)
  have en: "enumerate 0 (map word_of_int (A @ x # B)) =
            enumerate 0 (map word_of_int A)
            @ (length A, word_of_int x) # enumerate (Suc (length A)) (map word_of_int B)"
    by (simp add: enumerate_append_eq)
  have inner: "inner_loop np_index n 1 results (enumerate 0 (map word_of_int [1..m])) (initial n m)
               = Inl IndexError"
    unfolding split en inner_loop_append using pre bad by simp
  have t: "times_int32 1 (map word_of_int [1..m]) = Inr results"
    unfolding split results_def by (simp add: times_int32_def)
  have one: "[1..n] = 1 # [2..n]"
    using assms(1) upto_rec1 [of 1 n] by simp
  have "outer_loop np_index n m [1..n] (initial n m) = Inl IndexError"
    unfolding one by (simp add: Let_def np_arange_def t inner)
  then show ?thesis
    using assms
    by (simp add: count_unique_multiplication_results_def analyzer_def np_zeros_def initial_def)
qed

lemma outer_loop_reaches:
  assumes "\<exists>i \<in> set is. 2 ^ 31 \<le> i"
  shows "\<exists>e. outer_loop ix n m is st = Inl e"
  using assms
proof (induction "is" arbitrary: st)
  case Nil
  then show ?case by simp
next
  case (Cons i "is")
  show ?case
  proof (cases "2 ^ 31 \<le> i")
    case True
    then have "times_int32 i (np_arange i (m + 1)) = Inl OverflowError"
      by (simp add: times_int32_def)
    then show ?thesis by (simp add: Let_def)
  next
    case False
    with Cons.prems have "\<exists>i \<in> set is. 2 ^ 31 \<le> i" by auto
    then have "\<exists>e. outer_loop ix n m is st' = Inl e" for st'
      by (rule Cons.IH)
    then show ?thesis
      by (auto simp: Let_def split: sum.splits)
  qed
qed

lemma tall_error:
  assumes "2 ^ 31 \<le> n"
  shows "\<exists>e. count_unique_multiplication_results n m = Inl e"
proof -
  have "\<exists>i \<in> set [1..n]. 2 ^ 31 \<le> i"
    using assms by (intro bexI [of _ "2 ^ 31"]) simp_all
  then have h: "\<exists>e. outer_loop np_index n m [1..n] st = Inl e" for st
    by (rule outer_loop_reaches)
  show ?thesis
  proof (cases "np_zeros n m (0 :: int32)")
    case (Inl e)
    then show ?thesis
      by (simp add: count_unique_multiplication_results_def analyzer_def)
  next
    case rm: (Inr rm)
    show ?thesis
    proof (cases "np_zeros n m False")
      case (Inl e)
      then show ?thesis
        using rm by (simp add: count_unique_multiplication_results_def analyzer_def)
    next
      case nm: (Inr nm)
      from h [of "\<lparr>result_matrix = rm, is_new_matrix = nm, seen_results = {}\<rparr>"]
      obtain e where "outer_loop np_index n m [1..n]
          \<lparr>result_matrix = rm, is_new_matrix = nm, seen_results = {}\<rparr> = Inl e" ..
      then show ?thesis
        using rm nm by (simp add: count_unique_multiplication_results_def analyzer_def)
    qed
  qed
qed

lemma tall_overflow:
  assumes "2 ^ 31 \<le> n" "0 \<le> m" "m < 2 ^ 31"
  shows "count_unique_multiplication_results n m = Inl OverflowError"
proof -
  let ?A = "[1..2 ^ 31 - 1] :: int list"
  let ?B = "[2 ^ 31 + 1..n]"
  have split: "[1..n] = ?A @ 2 ^ 31 # ?B"
    using assms(1) by (intro upto_split3) simp_all
  have pre: "\<exists>st'. outer_loop np_index n m ?A (initial n m) = Inr st'"
    using assms by (subst outer_loop_ok [where ix = np_index]) (auto simp: plain_np_index good_initial)
  have "times_int32 (2 ^ 31) xs = Inl OverflowError" for xs
    by (simp add: times_int32_def)
  then have step: "outer_loop np_index n m (2 ^ 31 # ?B) st' = Inl OverflowError" for st'
    by (simp add: Let_def)
  have "outer_loop np_index n m [1..n] (initial n m) = Inl OverflowError"
    unfolding split outer_loop_append using pre step by auto
  then show ?thesis
    using assms
    by (simp add: count_unique_multiplication_results_def analyzer_def np_zeros_def initial_def)
qed

lemma returns_bounded:
  assumes "0 < n" "0 < m" "count_unique_multiplication_results n m = Inr res"
  shows "n < 2 ^ 31 \<and> m < 2 ^ 31"
proof -
  have "n < 2 ^ 31"
    using tall_error [of n m] assms(3) by (cases "n < 2 ^ 31") auto
  moreover have "m < 2 ^ 31"
    using wide_overflow [of n m] assms(1,3) \<open>n < 2 ^ 31\<close> by (cases "m < 2 ^ 31") auto
  ultimately show ?thesis by simp
qed

lemma returned:
  assumes "0 < n" "0 < m" "count_unique_multiplication_results n m = Inr (S, k, R, N)"
  shows "n < 2 ^ 31" "m < 2 ^ 31" "S = seen_results (final n m)" "k = card (seen_results (final n m))"
    "R = result_matrix (final n m)" "N = is_new_matrix (final n m)"
proof -
  from returns_bounded [OF assms] show b: "n < 2 ^ 31" "m < 2 ^ 31" by simp_all
  from assms(3) analyzer_eq [of n m] assms(1,2) b
  show "S = seen_results (final n m)" "k = card (seen_results (final n m))"
    "R = result_matrix (final n m)" "N = is_new_matrix (final n m)"
    by simp_all
qed

section \<open>What the loops compute\<close>

lemma seen_visit:
  "seen_results (visit n (i, j) st) = insert (word_of_int i * word_of_int j) (seen_results st)"
  by (auto simp: visit_def Let_def)

lemma seen_fold:
  "seen_results (fold (visit n) ps st)
   = seen_results st \<union> (\<lambda>(i, j). word_of_int i * word_of_int j) ` set ps"
  by (induction ps arbitrary: st) (auto simp: seen_visit)

lemma rm_visit:
  assumes "good n m st" "inb n m (i, j)" "r < nat n" "c < nat m"
  shows "result_matrix (visit n (i, j) st) ! r ! c =
         (if (int r + 1, int c + 1) = (i, j) \<or> (int c + 1, int r + 1) = (i, j)
          then cell_value (r, c) else result_matrix st ! r ! c)"
proof -
  from assms(1) have rm: "shaped (nat n) (nat m) (result_matrix st)" by (simp add: good_def)
  from assms(2) have b: "1 \<le> i" "i \<le> n" "i \<le> j" "j \<le> m" by (simp_all add: inb_def)
  let ?w = "word_of_int i * word_of_int j :: int32"
  let ?rm1 = "upd (result_matrix st) (nat (i - 1)) (nat (j - 1)) ?w"
  have ir: "nat (i - 1) < nat n" and jc: "nat (j - 1) < nat m" and ic: "nat (i - 1) < nat m"
    using b by auto
  have e1: "(r = nat (i - 1) \<and> c = nat (j - 1)) \<longleftrightarrow> (int r + 1, int c + 1) = (i, j)"
    using b by auto
  have e2: "(j \<le> n \<and> r = nat (j - 1) \<and> c = nat (i - 1)) \<longleftrightarrow> (int c + 1, int r + 1) = (i, j)"
    using b assms(3) by auto
  have v: "?w = cell_value (r, c)"
    if "(int r + 1, int c + 1) = (i, j) \<or> (int c + 1, int r + 1) = (i, j)"
    using that by (auto simp: cell_value_def mult.commute)
  have step: "result_matrix (visit n (i, j) st) =
        (if j \<le> n then upd ?rm1 (nat (j - 1)) (nat (i - 1)) ?w else ?rm1)"
    by (simp add: visit_def Let_def)
  have "result_matrix (visit n (i, j) st) ! r ! c =
        (if (r = nat (i - 1) \<and> c = nat (j - 1)) \<or> (j \<le> n \<and> r = nat (j - 1) \<and> c = nat (i - 1))
         then ?w else result_matrix st ! r ! c)"
  proof (cases "j \<le> n")
    case True
    then have jr: "nat (j - 1) < nat n" using b by auto
    have "upd ?rm1 (nat (j - 1)) (nat (i - 1)) ?w ! r ! c =
          (if (r = nat (i - 1) \<and> c = nat (j - 1)) \<or> (r = nat (j - 1) \<and> c = nat (i - 1))
           then ?w else result_matrix st ! r ! c)"
      by (rule upd_upd_nth [OF rm ir jc jr ic assms(3,4)])
    then show ?thesis unfolding step using True by (simp only: if_True simp_thms)
  next
    case False
    have "?rm1 ! r ! c =
          (if r = nat (i - 1) \<and> c = nat (j - 1) then ?w else result_matrix st ! r ! c)"
      by (rule upd_nth [OF rm ir jc assms(3,4)])
    then show ?thesis unfolding step using False by (simp only: if_False simp_thms)
  qed
  also have "\<dots> = (if (int r + 1, int c + 1) = (i, j) \<or> (int c + 1, int r + 1) = (i, j)
          then ?w else result_matrix st ! r ! c)"
    unfolding e1 e2 ..
  also have "\<dots> = (if (int r + 1, int c + 1) = (i, j) \<or> (int c + 1, int r + 1) = (i, j)
          then cell_value (r, c) else result_matrix st ! r ! c)"
  proof (cases "(int r + 1, int c + 1) = (i, j) \<or> (int c + 1, int r + 1) = (i, j)")
    case True
    from v [OF True] show ?thesis by (simp only: if_P [OF True])
  next
    case False
    show ?thesis by (simp only: if_not_P [OF False])
  qed
  finally show ?thesis .
qed

lemma rm_fold:
  assumes "good n m st" "\<forall>p \<in> set ps. inb n m p" "r < nat n" "c < nat m"
  shows "result_matrix (fold (visit n) ps st) ! r ! c =
         (if (int r + 1, int c + 1) \<in> set ps \<or> (int c + 1, int r + 1) \<in> set ps
          then cell_value (r, c) else result_matrix st ! r ! c)"
  using assms(1,2)
proof (induction ps arbitrary: st)
  case Nil
  then show ?case by simp
next
  case (Cons p ps)
  obtain i j where p: "p = (i, j)" by (cases p)
  have g: "good n m (visit n p st)" using Cons.prems(1) by (rule visit_good)
  have "result_matrix (fold (visit n) ps (visit n p st)) ! r ! c =
         (if (int r + 1, int c + 1) \<in> set ps \<or> (int c + 1, int r + 1) \<in> set ps
          then cell_value (r, c) else result_matrix (visit n p st) ! r ! c)"
    using Cons.prems by (intro Cons.IH [OF g]) simp
  moreover have "result_matrix (visit n p st) ! r ! c =
         (if (int r + 1, int c + 1) = p \<or> (int c + 1, int r + 1) = p
          then cell_value (r, c) else result_matrix st ! r ! c)"
    unfolding p using Cons.prems assms(3,4) by (intro rm_visit) (simp_all add: p)
  ultimately show ?case by auto
qed

lemma nm_visit:
  assumes "good n m st" "inb n m (i, j)"
  shows "true_cells n m (is_new_matrix (visit n (i, j) st)) =
         (if word_of_int i * word_of_int j \<in> seen_results st
          then true_cells n m (is_new_matrix st)
          else insert (nat (i - 1), nat (j - 1)) (true_cells n m (is_new_matrix st)))"
proof -
  from assms(1) have nm: "shaped (nat n) (nat m) (is_new_matrix st)" by (simp add: good_def)
  from assms(2) have b: "1 \<le> i" "i \<le> n" "i \<le> j" "j \<le> m" by (simp_all add: inb_def)
  have c1: "upd (is_new_matrix st) (nat (i - 1)) (nat (j - 1)) True ! r ! c
            = (if r = nat (i - 1) \<and> c = nat (j - 1) then True else is_new_matrix st ! r ! c)"
    if "r < nat n" "c < nat m" for r c
    using b that by (intro upd_nth [OF nm]) auto
  have "true_cells n m (upd (is_new_matrix st) (nat (i - 1)) (nat (j - 1)) True)
        = insert (nat (i - 1), nat (j - 1)) (true_cells n m (is_new_matrix st))"
    using b by (auto simp: true_cells_def c1)
  then show ?thesis by (simp add: visit_def Let_def)
qed

lemma tally_visit:
  assumes "good n m st" "inb n m (i, j)" "tally n m st"
  shows "tally n m (visit n (i, j) st)"
proof -
  from assms(2) have b: "1 \<le> i" "i \<le> n" "i \<le> j" "j \<le> m" by (simp_all add: inb_def)
  have v: "cell_value (nat (i - 1), nat (j - 1)) = word_of_int i * word_of_int j"
    using b by (simp add: cell_value_def)
  show ?thesis
    using assms(3) b unfolding tally_def nm_visit [OF assms(1,2)] seen_visit
    by (auto simp: v)
qed

lemma tally_fold:
  assumes "good n m st" "\<forall>p \<in> set ps. inb n m p" "tally n m st"
  shows "tally n m (fold (visit n) ps st)"
  using assms
proof (induction ps arbitrary: st)
  case Nil
  then show ?case by simp
next
  case (Cons p ps)
  obtain i j where p: "p = (i, j)" by (cases p)
  show ?case
    using Cons.prems by (auto simp: p intro!: Cons.IH visit_good tally_visit)
qed

lemma true_cells_initial: "true_cells n m (is_new_matrix (initial n m)) = {}"
  by (auto simp: true_cells_def initial_def)

lemma tally_final: "tally n m (final n m)"
  unfolding final_def
proof (intro tally_fold good_initial)
  show "\<forall>p \<in> set (traversal n m). inb n m p" by (simp add: set_traversal)
  show "tally n m (initial n m)"
    unfolding tally_def true_cells_initial by (simp add: initial_def)
qed

section \<open>32-bit products\<close>

lemma sint_big: "sint (word_of_int 46341 * word_of_int 46341 :: int32) = -2147479015"
  by simp

lemma card_prod: "card ((\<lambda>(i, j). i * j) ` ({1..2::int} \<times> {1..1})) = 2"
  by code_simp

lemma analyzer_2_1:
  "count_unique_multiplication_results 2 1 = Inr ({1}, 1, [[1], [0]], [[True], [False]])"
  by code_simp

section \<open>The returned matrices\<close>

lemma rm_final_cell:
  assumes "r < nat n" "c < nat m"
  shows "result_matrix (final n m) ! r ! c =
         (if inb n m (int r + 1, int c + 1) \<or> inb n m (int c + 1, int r + 1)
          then cell_value (r, c) else 0)"
proof -
  have "result_matrix (final n m) ! r ! c =
         (if (int r + 1, int c + 1) \<in> set (traversal n m) \<or> (int c + 1, int r + 1) \<in> set (traversal n m)
          then cell_value (r, c) else result_matrix (initial n m) ! r ! c)"
    unfolding final_def using assms
    by (intro rm_fold) (simp_all add: set_traversal good_initial)
  moreover have "result_matrix (initial n m) ! r ! c = 0"
    using assms by (simp add: initial_def)
  ultimately show ?thesis by (simp add: set_traversal)
qed

lemma seen_final:
  "seen_results (final n m) = (\<lambda>(i, j). word_of_int i * word_of_int j) ` {p. inb n m p}"
  by (simp add: final_def seen_fold set_traversal initial_def)

section \<open>Counting true cells\<close>

lemma upto_as_upt: "[0..int k - 1] = map int [0..<k]"
proof (induction k)
  case 0
  then show ?case by simp
next
  case (Suc k)
  have "[0..int (Suc k) - 1] = [0..int k - 1] @ [int k]"
    using upto_rec2 [of 0 "int k"] by simp
  with Suc show ?case by simp
qed

lemma map_nth_upto: "map (\<lambda>j. xs ! nat j) [0..int (length xs) - 1] = xs"
  by (simp add: upto_as_upt comp_def map_nth)

lemma shaped_rows: "shaped R C a \<Longrightarrow> row \<in> set a \<Longrightarrow> length row = C"
  by (auto simp: shaped_def in_set_conv_nth)

lemma count_true_card:
  assumes "\<forall>row \<in> set a. length row = C"
  shows "length (filter (\<lambda>b. b) (concat a)) = card {(r, c). r < length a \<and> c < C \<and> a ! r ! c}"
  using assms
proof (induction a rule: rev_induct)
  case Nil
  then show ?case by simp
next
  case (snoc row a)
  let ?T = "\<lambda>a. {(r, c). r < length a \<and> c < C \<and> a ! r ! c}"
  let ?new = "Pair (length a) ` {c. c < length row \<and> row ! c}"
  have len: "length row = C" using snoc.prems by simp
  have split: "?T (a @ [row]) = ?T a \<union> ?new"
    using len by (auto simp: nth_append less_Suc_eq)
  have fin: "finite (?T a)"
    by (rule finite_subset [of _ "{..<length a} \<times> {..<C}"]) auto
  have disj: "?T a \<inter> ?new = {}" by auto
  have "card ?new = card {c. c < length row \<and> row ! c}"
    by (intro card_image) (simp add: inj_on_def)
  also have "\<dots> = length (filter (\<lambda>b. b) row)"
    by (simp add: length_filter_conv_card)
  finally have new: "card ?new = length (filter (\<lambda>b. b) row)" .
  have "card (?T (a @ [row])) = card (?T a) + card ?new"
    unfolding split by (intro card_Un_disjoint fin disj) simp
  with new snoc show ?case by simp
qed

lemma count_true_cells:
  assumes "shaped (nat n) (nat m) a"
  shows "count_true a = card (true_cells n m a)"
proof -
  have "length (filter (\<lambda>b. b) (concat a)) = card {(r, c). r < length a \<and> c < nat m \<and> a ! r ! c}"
    using assms by (intro count_true_card) (auto dest: shaped_rows)
  moreover have "length a = nat n" using assms by (simp add: shaped_def)
  ultimately show ?thesis by (simp add: count_true_def true_cells_def)
qed

lemma rm_final_direct:
  assumes "inb n m (i, j)"
  shows "result_matrix (final n m) ! nat (i - 1) ! nat (j - 1) = word_of_int i * word_of_int j"
proof -
  from assms have b: "1 \<le> i" "i \<le> n" "i \<le> j" "j \<le> m" by (simp_all add: inb_def)
  have "result_matrix (final n m) ! nat (i - 1) ! nat (j - 1) = cell_value (nat (i - 1), nat (j - 1))"
    using b assms by (subst rm_final_cell) auto
  then show ?thesis using b by (simp add: cell_value_def)
qed

lemma rm_final_mirror:
  assumes "inb n m (i, j)" "j \<le> n"
  shows "result_matrix (final n m) ! nat (j - 1) ! nat (i - 1) = word_of_int i * word_of_int j"
proof -
  from assms have b: "1 \<le> i" "i \<le> n" "i \<le> j" "j \<le> m" by (simp_all add: inb_def)
  have "result_matrix (final n m) ! nat (j - 1) ! nat (i - 1) = cell_value (nat (j - 1), nat (i - 1))"
    using b assms by (subst rm_final_cell) auto
  then show ?thesis using b by (simp add: cell_value_def mult.commute)
qed

lemma written_values:
  "(\<lambda>(r, c). result_matrix (final n m) ! nat r ! nat c)
     ` (set (direct_writes n m) \<union> set (mirror_writes n m))
   = seen_results (final n m)"
proof -
  let ?R = "result_matrix (final n m)"
  let ?w = "\<lambda>(i, j). word_of_int i * word_of_int j :: int32"
  have d: "(\<lambda>(r, c). ?R ! nat r ! nat c) ` set (direct_writes n m) = ?w ` {p. inb n m p}"
    by (force simp: direct_writes_def set_traversal image_image rm_final_direct split_def
        intro!: image_cong)
  have "(\<lambda>(r, c). ?R ! nat r ! nat c) ` set (mirror_writes n m)
        = ?w ` {p. inb n m p \<and> snd p \<le> n}"
    by (force simp: mirror_writes_def set_traversal image_image rm_final_mirror split_def
        intro!: image_cong)
  also have "\<dots> \<subseteq> ?w ` {p. inb n m p}" by auto
  finally show ?thesis
    using d by (auto simp: seen_final image_Un)
qed

section \<open>The drawing loop\<close>

lemma getitem_ok: "0 \<le> k \<Longrightarrow> k < int (length a) \<Longrightarrow> getitem a k = Inr (a ! nat k)"
  by (simp add: getitem_def np_index_def)

lemma draw_row_ok:
  assumes "\<forall>j \<in> set js. 0 \<le> j \<and> j < int (length row)"
  shows "draw_row y row js =
         Inr (map (\<lambda>j. \<lparr>xy = (j, y), facecolor = (if row ! nat j then Red else White)\<rparr>) js)"
  using assms by (induction js) (simp_all add: getitem_ok)

lemma draw_rows_ok:
  assumes "shaped (nat n) (nat m) a" "\<forall>i \<in> set is. 0 \<le> i \<and> i < n"
  shows "draw_rows n m a is =
         Inr (concat (map (\<lambda>i. map (\<lambda>j. \<lparr>xy = (j, n - 1 - i),
                                  facecolor = (if a ! nat i ! nat j then Red else White)\<rparr>)
                          [0..m - 1]) is))"
  using assms(2)
proof (induction "is")
  case Nil
  then show ?case by simp
next
  case (Cons i "is")
  have i: "0 \<le> i" "i < n" using Cons.prems by simp_all
  have la: "length a = nat n" using assms(1) by (simp add: shaped_def)
  have lr: "length (a ! nat i) = nat m" using assms(1) i by (simp add: shaped_def)
  have row: "getitem a i = Inr (a ! nat i)"
    using i la by (intro getitem_ok) simp_all
  have dr: "draw_row (n - 1 - i) (a ! nat i) [0..m - 1] =
         Inr (map (\<lambda>j. \<lparr>xy = (j, n - 1 - i),
                       facecolor = (if a ! nat i ! nat j then Red else White)\<rparr>) [0..m - 1])"
    by (intro draw_row_ok) (auto simp: lr)
  show ?case
    using Cons by (simp add: row dr)
qed

lemma visualize_eq:
  assumes "0 \<le> n" "n < 2 ^ 31" "0 \<le> m" "m < 2 ^ 31"
  shows "visualize_multiplication_table n m =
         Inr (grid_patches n m (is_new_matrix (final n m)),
              card (seen_results (final n m)), seen_results (final n m))"
proof -
  have g: "shaped (nat n) (nat m) (is_new_matrix (final n m))"
    using good_final [of n m] by (simp add: good_def)
  have "draw_rows n m (is_new_matrix (final n m)) [0..n - 1]
        = Inr (grid_patches n m (is_new_matrix (final n m)))"
    unfolding grid_patches_def by (intro draw_rows_ok [OF g]) auto
  then show ?thesis
    using assms by (simp add: visualize_multiplication_table_def analyzer_eq)
qed

lemma facecolor_grid:
  assumes "shaped (nat n) (nat m) a"
  shows "map facecolor (grid_patches n m a) = map (\<lambda>b. if b then Red else White) (concat a)"
proof -
  have la: "int (length a) = n \<or> (n \<le> 0 \<and> a = [])" using assms by (auto simp: shaped_def)
  have row: "map (\<lambda>j. if a ! nat i ! nat j then Red else White) [0..m - 1]
             = map (\<lambda>b. if b then Red else White) (a ! nat i)"
    if "0 \<le> i" "i < n" for i
  proof -
    have lr: "length (a ! nat i) = nat m" using assms that by (simp add: shaped_def)
    show ?thesis
    proof (cases "0 < m")
      case True
      then have "[0..m - 1] = [0..int (length (a ! nat i)) - 1]" by (simp add: lr)
      then have "map (\<lambda>j. a ! nat i ! nat j) [0..m - 1] = a ! nat i"
        by (simp only: map_nth_upto)
      then have "map ((\<lambda>b. if b then Red else White) \<circ> (\<lambda>j. a ! nat i ! nat j)) [0..m - 1]
                 = map (\<lambda>b. if b then Red else White) (a ! nat i)"
        by (simp only: map_map [symmetric])
      then show ?thesis by (simp add: comp_def)
    next
      case False
      then show ?thesis using lr by simp
    qed
  qed
  have "map facecolor (grid_patches n m a)
        = concat (map (\<lambda>i. map (\<lambda>j. if a ! nat i ! nat j then Red else White) [0..m - 1]) [0..n - 1])"
    by (simp add: grid_patches_def map_concat comp_def)
  also have "\<dots> = concat (map (\<lambda>i. map (\<lambda>b. if b then Red else White) (a ! nat i)) [0..n - 1])"
    using row by (intro arg_cong [where f = concat] map_cong) auto
  also have "\<dots> = concat (map (map (\<lambda>b. if b then Red else White)) (map (\<lambda>i. a ! nat i) [0..n - 1]))"
    by (simp add: comp_def)
  also have "map (\<lambda>i. a ! nat i) [0..n - 1] = a"
  proof (cases "0 < n")
    case True
    then have "[0..n - 1] = [0..int (length a) - 1]" using la by auto
    then show ?thesis by (simp only: map_nth_upto)
  next
    case False
    then show ?thesis using la by auto
  qed
  finally show ?thesis by (simp add: map_concat)
qed

lemma red_count:
  assumes "shaped (nat n) (nat m) a"
  shows "length (filter (\<lambda>p. facecolor p = Red) (grid_patches n m a)) = count_true a"
proof -
  have "length (filter (\<lambda>p. facecolor p = Red) (grid_patches n m a))
        = length (filter (\<lambda>c. c = Red) (map facecolor (grid_patches n m a)))"
    by (simp add: filter_map comp_def)
  also have "\<dots> = length (filter (\<lambda>c. c = Red) (map (\<lambda>b. if b then Red else White) (concat a)))"
    by (simp only: facecolor_grid [OF assms])
  also have "\<dots> = length (filter (\<lambda>b. (if b then Red else White) = Red) (concat a))"
    by (simp add: filter_map comp_def)
  also have "(\<lambda>b. (if b then Red else White) = Red) = (\<lambda>b. b)"
    by auto
  finally show ?thesis by (simp add: count_true_def)
qed

lemma new_cells_bij:
  "bij_betw (\<lambda>(r, c). result_matrix (final n m) ! r ! c)
     (true_cells n m (is_new_matrix (final n m))) (seen_results (final n m))"
proof -
  let ?T = "true_cells n m (is_new_matrix (final n m))"
  have t: "inj_on cell_value ?T" "cell_value ` ?T = seen_results (final n m)"
    "\<forall>p \<in> ?T. fst p \<le> snd p"
    using tally_final [of n m] by (simp_all add: tally_def)
  have agree: "(\<lambda>(r, c). result_matrix (final n m) ! r ! c) p = cell_value p" if "p \<in> ?T" for p
  proof -
    obtain r c where p: "p = (r, c)" by (cases p)
    from that t(3) have b: "r < nat n" "c < nat m" "r \<le> c"
      by (auto simp: p true_cells_def)
    then have "inb n m (int r + 1, int c + 1)" by (auto simp: inb_def)
    then show ?thesis by (simp add: p rm_final_cell [OF b(1,2)])
  qed
  have "bij_betw cell_value ?T (seen_results (final n m))"
    using t(1,2) by (simp add: bij_betw_def)
  then show ?thesis
    using agree by (subst bij_betw_cong [where g = cell_value]) auto
qed

section \<open>Tables at least as wide as they are high\<close>

text \<open>
  With \<open>n \<le> m < 2 ^ 31\<close> every cell of the table is written, and while the products
  fit 32 bits the count is the number of distinct products of the whole table.
\<close>

lemma full_table_when_wide:
  assumes "0 < n" "n \<le> m" "m < 2 ^ 31" "r < nat n" "c < nat m"
  shows "\<exists>S k R N. count_unique_multiplication_results n m = Inr (S, k, R, N) \<and>
           R ! r ! c = word_of_int (int r + 1) * word_of_int (int c + 1)"
proof -
  have "inb n m (int r + 1, int c + 1) \<or> inb n m (int c + 1, int r + 1)"
    using assms by (auto simp: inb_def)
  then have "result_matrix (final n m) ! r ! c = cell_value (r, c)"
    by (simp add: rm_final_cell [OF assms(4,5)])
  then show ?thesis
    using assms(1-3) by (simp add: analyzer_eq cell_value_def)
qed

lemma products_when_wide:
  assumes "n \<le> m"
  shows "(\<lambda>(i, j). i * j) ` {p. inb n m p} = (\<lambda>(i, j). i * j) ` ({1..n} \<times> {1..m})"
proof (intro equalityI subsetI)
  fix x assume "x \<in> (\<lambda>(i, j). i * j) ` {p. inb n m p}"
  then show "x \<in> (\<lambda>(i, j). i * j) ` ({1..n} \<times> {1..m})"
    by (force simp: inb_def)
next
  fix x assume "x \<in> (\<lambda>(i, j). i * j) ` ({1..n} \<times> {1..m})"
  then obtain i j where ij: "x = i * j" "1 \<le> i" "i \<le> n" "1 \<le> j" "j \<le> m" by auto
  show "x \<in> (\<lambda>(i, j). i * j) ` {p. inb n m p}"
  proof (cases "i \<le> j")
    case True
    then have "inb n m (i, j)" using ij by (simp add: inb_def)
    then show ?thesis using ij(1) by force
  next
    case False
    then have "inb n m (j, i)" using ij assms by (simp add: inb_def)
    moreover have "x = j * i" using ij(1) by (simp add: mult.commute)
    ultimately show ?thesis by force
  qed
qed

lemma distinct_count_when_wide:
  assumes "0 < n" "n \<le> m" "n * m < 2 ^ 31"
  shows "\<exists>S k R N. count_unique_multiplication_results n m = Inr (S, k, R, N) \<and>
           k = card ((\<lambda>(i, j). i * j) ` ({1..n} \<times> {1..m}))"
proof -
  let ?P = "(\<lambda>(i, j). i * j) ` ({1..n} \<times> {1..m})"
  have range: "0 \<le> x \<and> x < 2 ^ 31" if "x \<in> ?P" for x
  proof -
    from that obtain i j where ij: "x = i * j" "1 \<le> i" "i \<le> n" "1 \<le> j" "j \<le> m" by auto
    have "i * j \<le> n * m" using ij by (intro mult_mono) auto
    moreover have "0 \<le> i * j" using ij by simp
    ultimately show ?thesis using assms(3) ij(1) by simp
  qed
  have inj: "inj_on (word_of_int :: int \<Rightarrow> int32) ?P"
  proof (rule inj_onI)
    fix x y assume x: "x \<in> ?P" and y: "y \<in> ?P"
      and e: "(word_of_int x :: int32) = word_of_int y"
    have "x = sint (word_of_int x :: int32)" using range [OF x] by (simp add: sint_small)
    also have "\<dots> = sint (word_of_int y :: int32)" by (simp only: e)
    also have "\<dots> = y" using range [OF y] by (simp add: sint_small)
    finally show "x = y" .
  qed
  have "seen_results (final n m) = word_of_int ` ((\<lambda>(i, j). i * j) ` {p. inb n m p})"
    by (simp add: seen_final image_image split_def)
  also have "\<dots> = word_of_int ` ?P"
    by (simp only: products_when_wide [OF assms(2)])
  finally have "card (seen_results (final n m)) = card ?P"
    by (simp only: card_image [OF inj])
  moreover have "m < 2 ^ 31"
  proof -
    have "1 * m \<le> n * m" using assms(1,2) by (intro mult_right_mono) simp_all
    then show ?thesis using assms(3) by simp
  qed
  ultimately show ?thesis
    using assms(1,2) by (simp add: analyzer_eq)
qed

section \<open>Results\<close>

text \<open>
  C1. The count returned by the analyzer is meant to be the number of distinct products
  \<open>i * j\<close> of the full \<open>n \<times> m\<close> table. With more rows than columns the loops never
  reach the rows below the \<open>m\<close>-th: for \<open>n = 2\<close>, \<open>m = 1\<close> the function returns the count
  1, while the table \<open>1 * 1, 2 * 1\<close> has 2 distinct products.
\<close>

theorem distinct_count_gap_2_1:
  "count_of (count_unique_multiplication_results 2 1) = 1 \<and>
   card ((\<lambda>(i, j). i * j) ` ({1..2::int} \<times> {1..1})) = 2"
  by (rule conjI [OF _ card_prod]) (simp add: analyzer_2_1)

text \<open>
  C2. For positive \<open>n\<close>, \<open>m\<close>, whenever the analyzer returns, its count equals the
  cardinality of the returned set, the number of true entries of the returned boolean
  matrix, and the number of distinct values held by the cells the traversal wrote
  (directly or by the mirror store); and it does return when \<open>n\<close> and \<open>m\<close> are below
  \<open>2 ^ 31\<close>.
\<close>

theorem count_agrees:
  assumes "0 < n" "0 < m"
  shows "(n < 2 ^ 31 \<and> m < 2 ^ 31 \<longrightarrow>
            (\<exists>res. count_unique_multiplication_results n m = Inr res)) \<and>
         (\<forall>S k R N. count_unique_multiplication_results n m = Inr (S, k, R, N) \<longrightarrow>
            k = card S \<and>
            k = count_true N \<and>
            k = card ((\<lambda>(r, c). R ! nat r ! nat c)
                       ` set (direct_writes n m @ mirror_writes n m)))"
proof (intro conjI impI allI)
  assume "n < 2 ^ 31 \<and> m < 2 ^ 31"
  then show "\<exists>res. count_unique_multiplication_results n m = Inr res"
    using assms by (simp add: analyzer_eq)
next
  fix S k R N
  assume ret: "count_unique_multiplication_results n m = Inr (S, k, R, N)"
  note r = returned [OF assms ret]
  have g: "shaped (nat n) (nat m) (is_new_matrix (final n m))"
    using good_final [of n m] by (simp add: good_def)
  have t: "inj_on cell_value (true_cells n m (is_new_matrix (final n m)))"
    "cell_value ` true_cells n m (is_new_matrix (final n m)) = seen_results (final n m)"
    using tally_final [of n m] by (simp_all add: tally_def)
  have "count_true (is_new_matrix (final n m)) = card (true_cells n m (is_new_matrix (final n m)))"
    by (rule count_true_cells [OF g])
  also have "\<dots> = card (cell_value ` true_cells n m (is_new_matrix (final n m)))"
    by (rule card_image [OF t(1), symmetric])
  finally have c: "count_true (is_new_matrix (final n m)) = card (seen_results (final n m))"
    by (simp add: t(2))
  show "k = card S" by (simp add: r(3,4))
  show "k = count_true N" by (simp add: r(4,6) c)
  show "k = card ((\<lambda>(r, c). R ! nat r ! nat c) ` set (direct_writes n m @ mirror_writes n m))"
    by (simp add: r(4,5) written_values)
qed

text \<open>
  The same at \<open>n = 2\<close>, \<open>m = 4\<close>.
\<close>

theorem count_agrees_witness:
  "(0::int) < 2 \<and> (0::int) < 4 \<and>
   (\<exists>S k R N. count_unique_multiplication_results 2 4 = Inr (S, k, R, N) \<and>
           k = card S \<and>
           k = count_true N \<and>
           k = card ((\<lambda>(r, c). R ! nat r ! nat c) ` set (direct_writes 2 4 @ mirror_writes 2 4)))"
proof -
  from count_agrees [of 2 4]
  obtain res where res: "count_unique_multiplication_results 2 4 = Inr res"
    and all: "\<forall>S k R N. count_unique_multiplication_results 2 4 = Inr (S, k, R, N) \<longrightarrow>
            k = card S \<and> k = count_true N \<and>
            k = card ((\<lambda>(r, c). R ! nat r ! nat c) ` set (direct_writes 2 4 @ mirror_writes 2 4))"
    by auto
  obtain S k R N where "res = (S, k, R, N)" by (cases res)
  with res all show ?thesis by auto
qed

text \<open>
  C3. Every cell \<open>(i, j)\<close> of the returned product matrix is meant to hold \<open>i * j\<close>. For
  \<open>n = 2\<close>, \<open>m = 1\<close> the cell in row 2, column 1 is never written: it keeps the 0 of
  \<open>np.zeros\<close> instead of \<open>2 * 1\<close>.
\<close>

theorem product_matrix_gap_2_1:
  "result_matrix_of (count_unique_multiplication_results 2 1) ! 1 ! 0 = 0 \<and>
   sint (result_matrix_of (count_unique_multiplication_results 2 1) ! 1 ! 0) \<noteq> 2 * 1"
  by (simp add: analyzer_2_1)

text \<open>
  C4, with the 32-bit proviso. For positive \<open>n\<close>, \<open>m\<close> and 1-indexed \<open>i\<close>, \<open>j\<close> both at most
  \<open>min n m\<close>, whenever the analyzer returns, the cells \<open>(i, j)\<close> and \<open>(j, i)\<close> of the
  returned product matrix are equal, and both hold \<open>i * j\<close> computed in 32 bits; read as
  a signed number that is \<open>i * j\<close> itself whenever \<open>i * j < 2 ^ 31\<close>. The analyzer does
  return when \<open>n\<close> and \<open>m\<close> are below \<open>2 ^ 31\<close>.
\<close>

theorem mirror_cells:
  assumes "0 < n" "0 < m" "1 \<le> i" "i \<le> min n m" "1 \<le> j" "j \<le> min n m"
  shows "(n < 2 ^ 31 \<and> m < 2 ^ 31 \<longrightarrow>
            (\<exists>res. count_unique_multiplication_results n m = Inr res)) \<and>
         (\<forall>S k R N. count_unique_multiplication_results n m = Inr (S, k, R, N) \<longrightarrow>
            R ! nat (i - 1) ! nat (j - 1) = R ! nat (j - 1) ! nat (i - 1) \<and>
            R ! nat (i - 1) ! nat (j - 1) = word_of_int i * word_of_int j \<and>
            (i * j < 2 ^ 31 \<longrightarrow> sint (R ! nat (i - 1) ! nat (j - 1)) = i * j))"
proof (intro conjI impI allI)
  assume "n < 2 ^ 31 \<and> m < 2 ^ 31"
  then show "\<exists>res. count_unique_multiplication_results n m = Inr res"
    using assms by (simp add: analyzer_eq)
next
  fix S k R N
  assume ret: "count_unique_multiplication_results n m = Inr (S, k, R, N)"
  note r = returned [OF assms(1,2) ret]
  let ?R = "result_matrix (final n m)"
  have b: "nat (i - 1) < nat n" "nat (j - 1) < nat m" "nat (j - 1) < nat n" "nat (i - 1) < nat m"
    using assms by auto
  have io: "inb n m (i, j) \<or> inb n m (j, i)"
    using assms by (auto simp: inb_def)
  have ij: "?R ! nat (i - 1) ! nat (j - 1) = word_of_int i * word_of_int j"
    using io assms(3,5) by (simp add: rm_final_cell [OF b(1,2)] cell_value_def)
  have ji: "?R ! nat (j - 1) ! nat (i - 1) = word_of_int i * word_of_int j"
    using io assms(3,5) by (auto simp: rm_final_cell [OF b(3,4)] cell_value_def mult.commute)
  show "R ! nat (i - 1) ! nat (j - 1) = R ! nat (j - 1) ! nat (i - 1)"
    by (simp add: r(5) ij ji)
  show "R ! nat (i - 1) ! nat (j - 1) = word_of_int i * word_of_int j"
    by (simp add: r(5) ij)
  assume small: "i * j < 2 ^ 31"
  have "0 \<le> i * j" using assms(3,5) by simp
  from sint_small [OF this small]
  show "sint (R ! nat (i - 1) ! nat (j - 1)) = i * j"
    by (simp add: r(5) ij)
qed

text \<open>
  The same at \<open>n = 3\<close>, \<open>m = 4\<close>, \<open>i = 2\<close>, \<open>j = 3\<close>.
\<close>

theorem mirror_cells_witness:
  "(0::int) < 3 \<and> (0::int) < 4 \<and> (1::int) \<le> 2 \<and> (2::int) \<le> min 3 4 \<and> (1::int) \<le> 3 \<and> (3::int) \<le> min 3 4 \<and>
   (\<exists>S k R N. count_unique_multiplication_results 3 4 = Inr (S, k, R, N) \<and>
      R ! 1 ! 2 = R ! 2 ! 1 \<and> R ! 1 ! 2 = 6 \<and> sint (R ! 1 ! 2) = 6)"
proof -
  from mirror_cells [of 3 4 2 3]
  obtain res where res: "count_unique_multiplication_results 3 4 = Inr res"
    and all: "\<forall>S k R N. count_unique_multiplication_results 3 4 = Inr (S, k, R, N) \<longrightarrow>
      R ! 1 ! 2 = R ! 2 ! 1 \<and> R ! 1 ! 2 = 6 \<and> sint (R ! 1 ! 2) = 6"
    by auto
  obtain S k R N where "res = (S, k, R, N)" by (cases res)
  with res all show ?thesis by auto
qed

text \<open>
  Without the bound on \<open>i * j\<close> the equality with \<open>i * j\<close> fails: for \<open>n = m = 46341\<close> the
  diagonal cell \<open>(46341, 46341)\<close> holds \<open>46341 * 46341 - 2 ^ 32 = - 2147479015\<close>.
\<close>

theorem mirror_cells_overflow:
  "sint (result_matrix_of (count_unique_multiplication_results 46341 46341) ! 46340 ! 46340)
     = - 2147479015 \<and>
   sint (result_matrix_of (count_unique_multiplication_results 46341 46341) ! 46340 ! 46340)
     \<noteq> 46341 * 46341"
proof -
  have "result_matrix (final 46341 46341) ! 46340 ! 46340 = cell_value (46340, 46340)"
    by (subst rm_final_cell) (simp_all add: inb_def)
  then show ?thesis
    by (simp add: analyzer_eq cell_value_def)
qed

text \<open>
  C5. For positive \<open>n\<close>, \<open>m\<close>, whenever the analyzer returns, every cell strictly below the
  diagonal (row index greater than column index) of the returned boolean matrix is
  false: only the directly visited cell \<open>(i, j)\<close> with \<open>i \<le> j\<close> is ever marked, never
  its mirror. The analyzer does return when \<open>n\<close> and \<open>m\<close> are below \<open>2 ^ 31\<close>.
\<close>

theorem below_diagonal_false:
  assumes "0 < n" "0 < m" "r < nat n" "c < nat m" "c < r"
  shows "(n < 2 ^ 31 \<and> m < 2 ^ 31 \<longrightarrow>
            (\<exists>res. count_unique_multiplication_results n m = Inr res)) \<and>
         (\<forall>S k R N. count_unique_multiplication_results n m = Inr (S, k, R, N) \<longrightarrow>
            \<not> N ! r ! c)"
proof (intro conjI impI allI)
  assume "n < 2 ^ 31 \<and> m < 2 ^ 31"
  then show "\<exists>res. count_unique_multiplication_results n m = Inr res"
    using assms by (simp add: analyzer_eq)
next
  fix S k R N
  assume ret: "count_unique_multiplication_results n m = Inr (S, k, R, N)"
  note r = returned [OF assms(1,2) ret]
  have "\<forall>p \<in> true_cells n m (is_new_matrix (final n m)). fst p \<le> snd p"
    using tally_final [of n m] by (simp add: tally_def)
  moreover have "(r, c) \<in> true_cells n m (is_new_matrix (final n m))"
    if "is_new_matrix (final n m) ! r ! c"
    using that assms(3,4) by (simp add: true_cells_def)
  ultimately have "\<not> is_new_matrix (final n m) ! r ! c"
    using assms(5) by fastforce
  then show "\<not> N ! r ! c" by (simp add: r(6))
qed

text \<open>
  The same at \<open>n = 3\<close>, \<open>m = 3\<close>, for the 0-indexed cell \<open>(1, 0)\<close>, which the mirror
  store of the pair \<open>(1, 2)\<close> writes.
\<close>

theorem below_diagonal_false_witness:
  "(0::int) < 3 \<and> (0::int) < 3 \<and> (1::nat) < nat 3 \<and> (0::nat) < nat 3 \<and> (0::nat) < 1 \<and>
   (\<exists>S k R N. count_unique_multiplication_results 3 3 = Inr (S, k, R, N) \<and>
      R ! 1 ! 0 = 2 \<and> \<not> N ! 1 ! 0)"
proof -
  have run: "count_unique_multiplication_results 3 3 =
     Inr ({1, 2, 3, 4, 6, 9}, 6,
          [[1, 2, 3], [2, 4, 6], [3, 6, 9]],
          [[True, True, True], [False, True, True], [False, False, True]])"
    by code_simp
  have p: "(0::int) < 3" "(1::nat) < nat 3" "(0::nat) < nat 3" "(0::nat) < 1" by simp_all
  note facts = below_diagonal_false [OF p(1) p(1) p(2-4), THEN conjunct2, rule_format, OF run]
  from p run facts show ?thesis by simp
qed

text \<open>
  C6. For \<open>n = 3\<close>, \<open>m = 3\<close> the analyzer returns the set \<open>{1, 2, 3, 4, 6, 9}\<close>, the
  count 6, and a boolean matrix that is true exactly at the 1-indexed cells (1,1), (1,2),
  (1,3), (2,2), (2,3), (3,3), that is on and above the diagonal.
\<close>

theorem analyzer_3_3:
  "count_unique_multiplication_results 3 3 =
     Inr ({1, 2, 3, 4, 6, 9}, 6,
          [[1, 2, 3], [2, 4, 6], [3, 6, 9]],
          [[True, True, True], [False, True, True], [False, False, True]])"
  by code_simp

text \<open>
  C7. For positive \<open>n\<close>, \<open>m\<close>, whenever the analyzer returns: the returned set is the set
  of the 32-bit products \<open>i * j\<close> of the pairs the traversal visits; the renderer returns
  too, having drawn one rectangle per cell, red exactly where the boolean matrix is true
  and white elsewhere; the number of red rectangles is the returned count; and reading
  the product matrix at the true cells is a bijection onto the returned set, so each
  value the traversal reaches has exactly one red cell. Both functions do return when
  \<open>n\<close> and \<open>m\<close> are below \<open>2 ^ 31\<close>.
\<close>

theorem one_red_cell_per_value:
  assumes "0 < n" "0 < m"
  shows "(n < 2 ^ 31 \<and> m < 2 ^ 31 \<longrightarrow>
            (\<exists>res. count_unique_multiplication_results n m = Inr res) \<and>
            (\<exists>out. visualize_multiplication_table n m = Inr out)) \<and>
         (\<forall>S k R N. count_unique_multiplication_results n m = Inr (S, k, R, N) \<longrightarrow>
            S = (\<lambda>(i, j). word_of_int i * word_of_int j) ` set (traversal n m) \<and>
            visualize_multiplication_table n m = Inr (grid_patches n m N, k, S) \<and>
            length (filter (\<lambda>p. facecolor p = Red) (grid_patches n m N)) = k \<and>
            k = count_true N \<and>
            k = card S \<and>
            bij_betw (\<lambda>(r, c). R ! r ! c) (true_cells n m N) S)"
proof (intro conjI impI allI)
  assume b: "n < 2 ^ 31 \<and> m < 2 ^ 31"
  then show "\<exists>res. count_unique_multiplication_results n m = Inr res"
    using assms by (simp add: analyzer_eq)
  from b show "\<exists>out. visualize_multiplication_table n m = Inr out"
    using assms by (simp add: visualize_eq)
next
  fix S k R N
  assume ret: "count_unique_multiplication_results n m = Inr (S, k, R, N)"
  note r = returned [OF assms ret]
  have g: "shaped (nat n) (nat m) (is_new_matrix (final n m))"
    using good_final [of n m] by (simp add: good_def)
  have t: "inj_on cell_value (true_cells n m (is_new_matrix (final n m)))"
    "cell_value ` true_cells n m (is_new_matrix (final n m)) = seen_results (final n m)"
    using tally_final [of n m] by (simp_all add: tally_def)
  have "count_true (is_new_matrix (final n m)) = card (true_cells n m (is_new_matrix (final n m)))"
    by (rule count_true_cells [OF g])
  also have "\<dots> = card (cell_value ` true_cells n m (is_new_matrix (final n m)))"
    by (rule card_image [OF t(1), symmetric])
  finally have c: "count_true (is_new_matrix (final n m)) = card (seen_results (final n m))"
    by (simp add: t(2))
  show "S = (\<lambda>(i, j). word_of_int i * word_of_int j) ` set (traversal n m)"
    by (simp add: r(3) seen_final set_traversal)
  show "visualize_multiplication_table n m = Inr (grid_patches n m N, k, S)"
    using assms r(1,2) by (simp add: visualize_eq r(3,4,6))
  show "length (filter (\<lambda>p. facecolor p = Red) (grid_patches n m N)) = k"
    by (simp add: r(4,6) red_count [OF g] c)
  show "k = count_true N" by (simp add: r(4,6) c)
  show "k = card S" by (simp add: r(3,4))
  show "bij_betw (\<lambda>(r, c). R ! r ! c) (true_cells n m N) S"
    using new_cells_bij [of n m] by (simp add: r(3,5,6))
qed

text \<open>
  The same at \<open>n = 3\<close>, \<open>m = 2\<close>, where the traversal visits (1,1), (1,2), (2,2) and the
  returned set is \<open>{1, 2, 4}\<close>.
\<close>

theorem one_red_cell_per_value_witness:
  "(0::int) < 3 \<and> (0::int) < 2 \<and>
   (\<exists>S k R N. count_unique_multiplication_results 3 2 = Inr (S, k, R, N) \<and>
           S = (\<lambda>(i, j). word_of_int i * word_of_int j) ` set (traversal 3 2) \<and>
           S = {1, 2, 4} \<and>
           visualize_multiplication_table 3 2 = Inr (grid_patches 3 2 N, k, S) \<and>
           length (filter (\<lambda>p. facecolor p = Red) (grid_patches 3 2 N)) = k \<and>
           k = count_true N \<and>
           k = card S \<and>
           bij_betw (\<lambda>(r, c). R ! r ! c) (true_cells 3 2 N) S)"
proof -
  have run: "count_unique_multiplication_results 3 2 =
      Inr ({1, 2, 4}, 3, [[1, 2], [2, 4], [0, 0]], [[True, True], [False, True], [False, False]])"
    by code_simp
  have p: "(0::int) < 3" "(0::int) < 2" by simp_all
  note facts = one_red_cell_per_value [OF p, THEN conjunct2, rule_format, OF run]
  from p run facts show ?thesis by blast
qed

text \<open>
  C8, as the code behaves on arguments that are not positive integers. The analyzer
  validates nothing itself. An argument that is not an integer makes the allocation
  \<open>np.zeros\<close> raise a TypeError, a negative integer makes it raise a ValueError; with
  \<open>n = 0\<close>, or with \<open>m = 0\<close> and \<open>0 \<le> n < 2 ^ 31\<close>, the call returns normally: the empty
  set, the count 0, and matrices of \<open>n\<close> empty rows.
\<close>

theorem no_validation:
  "(n = NonInteger \<or> m = NonInteger \<longrightarrow>
      call_count_unique_multiplication_results n m = Inl TypeError) \<and>
   (a < 0 \<or> b < 0 \<longrightarrow>
      call_count_unique_multiplication_results (Integer a) (Integer b) = Inl ValueError) \<and>
   (0 \<le> b \<longrightarrow>
      call_count_unique_multiplication_results (Integer 0) (Integer b) = Inr ({}, 0, [], [])) \<and>
   (0 \<le> a \<and> a < 2 ^ 31 \<longrightarrow>
      call_count_unique_multiplication_results (Integer a) (Integer 0)
        = Inr ({}, 0, replicate (nat a) [], replicate (nat a) []))"
proof (intro conjI impI)
  assume "n = NonInteger \<or> m = NonInteger"
  then show "call_count_unique_multiplication_results n m = Inl TypeError"
    by (auto simp: call_count_unique_multiplication_results_def split: argument.splits)
next
  assume "a < 0 \<or> b < 0"
  then show "call_count_unique_multiplication_results (Integer a) (Integer b) = Inl ValueError"
    by (auto simp: call_count_unique_multiplication_results_def
        count_unique_multiplication_results_def analyzer_def np_zeros_def)
next
  assume "0 \<le> b"
  then show "call_count_unique_multiplication_results (Integer 0) (Integer b) = Inr ({}, 0, [], [])"
    by (simp add: call_count_unique_multiplication_results_def
        count_unique_multiplication_results_def analyzer_def np_zeros_def)
next
  assume a: "0 \<le> a \<and> a < 2 ^ 31"
  have "{p. inb a 0 p} = {}" by (auto simp: inb_def)
  then have "set (traversal a 0) = {}"
    by (simp add: set_traversal)
  then have t: "traversal a 0 = []"
    by simp
  have "final a 0 = initial a 0" by (simp add: final_def t)
  moreover have "initial a 0 = \<lparr>result_matrix = replicate (nat a) [],
      is_new_matrix = replicate (nat a) [], seen_results = {}\<rparr>"
    by (simp add: initial_def)
  ultimately show "call_count_unique_multiplication_results (Integer a) (Integer 0)
        = Inr ({}, 0, replicate (nat a) [], replicate (nat a) [])"
    using a by (simp add: call_count_unique_multiplication_results_def analyzer_eq)
qed

text \<open>
  The same for a non-integer first and second argument, at \<open>(-1, 2)\<close>, at \<open>(0, 7)\<close> and
  at \<open>(3, 0)\<close>.
\<close>

theorem no_validation_witness:
  "call_count_unique_multiplication_results NonInteger (Integer 3) = Inl TypeError \<and>
   call_count_unique_multiplication_results (Integer 2) NonInteger = Inl TypeError \<and>
   call_count_unique_multiplication_results (Integer (- 1)) (Integer 2) = Inl ValueError \<and>
   call_count_unique_multiplication_results (Integer 0) (Integer 7) = Inr ({}, 0, [], []) \<and>
   call_count_unique_multiplication_results (Integer 3) (Integer 0)
     = Inr ({}, 0, [[], [], []], [[], [], []])"
  using no_validation [of NonInteger "Integer 3" "- 1" 2]
    no_validation [of "Integer 2" NonInteger 3 7]
  by (simp add: numeral_3_eq_3)

text \<open>
  A non-positive input that is not rejected: \<open>n = 0\<close>, \<open>m = 5\<close> returns a normal result.
\<close>

theorem zero_rows_returns: "count_unique_multiplication_results 0 5 = Inr ({}, 0, [], [])"
  by code_simp

text \<open>
  C10, on the int32 range. For positive \<open>n\<close>, \<open>m\<close> below \<open>2 ^ 31\<close> the analyzer returns,
  and it returns the same result when every index outside \<open>[0, len)\<close> of its axis is
  made an error: each store of the run, direct or mirror, targets a row in \<open>[0, n)\<close>
  and a column in \<open>[0, m)\<close>.
\<close>

theorem accesses_in_bounds:
  assumes "0 < n" "0 < m" "n < 2 ^ 31" "m < 2 ^ 31"
  shows "\<exists>res. analyzer strict_index n m = Inr res \<and>
               count_unique_multiplication_results n m = Inr res"
  using assms by (simp add: analyzer_eq analyzer_on_eq [OF plain_strict_index])

text \<open>
  The same at \<open>n = 2\<close>, \<open>m = 3\<close>.
\<close>

theorem accesses_in_bounds_witness:
  "(0::int) < 2 \<and> (0::int) < 3 \<and> (2::int) < 2 ^ 31 \<and> (3::int) < 2 ^ 31 \<and>
   (\<exists>res. analyzer strict_index 2 3 = Inr res \<and>
          count_unique_multiplication_results 2 3 = Inr res)"
  using accesses_in_bounds [of 2 3] by simp

text \<open>
  Beyond that range the analyzer is not total: with \<open>n = 1\<close>, \<open>m = 2 ^ 31\<close> the wrapped
  \<open>j\<close> sends the mirror store out of the matrix, and with \<open>n = 2 ^ 31\<close>, \<open>m = 1\<close> the
  product \<open>i * j_range\<close> overflows at \<open>i = 2 ^ 31\<close>.
\<close>

theorem accesses_beyond_int32:
  "count_unique_multiplication_results 1 2147483648 = Inl IndexError \<and>
   count_unique_multiplication_results 2147483648 1 = Inl OverflowError"
  using wide_overflow [of 1 2147483648] tall_overflow [of 2147483648 1] by simp

end
